theory Spec2Isabelle
  imports Main
begin

unbundle bit_operations_syntax

section \<open>Python values used by \<^verbatim>\<open>src/python/diff/align.py\<close>\<close>

text \<open>
  The only exception the module can raise is Python's \<^verbatim>\<open>IndexError\<close>, from a list
  subscript out of range. A computation that may raise returns \<open>error + 'a\<close>; \<open>Inl\<close> is
  the raised exception.
\<close>

datatype error = IndexError

definition ebind :: "error + 'a \<Rightarrow> ('a \<Rightarrow> error + 'b) \<Rightarrow> error + 'b" where
  "ebind r f = (case r of Inl e \<Rightarrow> Inl e | Inr v \<Rightarrow> f v)"

text \<open>
  \<^verbatim>\<open>xs[i]\<close>: an index from \<open>-len\<close> up to \<open>-1\<close> counts from the end, an index from
  \<open>0\<close> up to \<open>len - 1\<close> from the start, every other index raises.
\<close>

definition py_get :: "'a list \<Rightarrow> int \<Rightarrow> error + 'a" where
  "py_get xs i =
     (if 0 \<le> i \<and> i < int (length xs) then Inr (xs ! nat i)
      else if i < 0 \<and> - int (length xs) \<le> i then Inr (xs ! nat (int (length xs) + i))
      else Inl IndexError)"

text \<open>
  A \<^verbatim>\<open>for\<close> loop over a list whose body may raise: the state is threaded through the
  iterations and the first exception ends the loop.
\<close>

fun for_each :: "('a \<Rightarrow> 's \<Rightarrow> error + 's) \<Rightarrow> 'a list \<Rightarrow> 's \<Rightarrow> error + 's" where
  "for_each body [] s = Inr s"
| "for_each body (v # vs) s =
     (case body v s of Inl e \<Rightarrow> Inl e | Inr s' \<Rightarrow> for_each body vs s')"

text \<open>A list built by appending one computed element per iteration.\<close>

fun collect :: "('a \<Rightarrow> error + 'b) \<Rightarrow> 'a list \<Rightarrow> error + 'b list" where
  "collect f [] = Inr []"
| "collect f (v # vs) =
     (case f v of Inl e \<Rightarrow> Inl e
      | Inr w \<Rightarrow> (case collect f vs of Inl e \<Rightarrow> Inl e | Inr ws \<Rightarrow> Inr (w # ws)))"

text \<open>
  A relaxed weight is \<^verbatim>\<open>math.inf\<close> or a Python integer. Adding an integer to
  \<^verbatim>\<open>math.inf\<close> gives \<^verbatim>\<open>math.inf\<close>, and \<^verbatim>\<open>math.inf\<close> is greater than every integer and
  not greater than itself.
\<close>

datatype pynum = Fin int | Inf

fun pynum_add :: "pynum \<Rightarrow> int \<Rightarrow> pynum" where
  "pynum_add (Fin a) b = Fin (a + b)"
| "pynum_add Inf b = Inf"

fun pynum_less :: "pynum \<Rightarrow> pynum \<Rightarrow> bool" where
  "pynum_less (Fin a) (Fin b) = (a < b)"
| "pynum_less (Fin a) Inf = True"
| "pynum_less Inf b = False"

section \<open>The character diff the cost model calls\<close>

text \<open>
  \<^verbatim>\<open>difflib.ndiff\<close> belongs to Python's standard library, not to this repository, so the
  model takes it as a parameter \<open>ndiff\<close>: the tokens it yields for two lines. Every token
  of \<^verbatim>\<open>ndiff\<close> is a non-empty string (a two-character tag and the element), kept here as
  its first character and the rest. \<^verbatim>\<open>ndiff\<close> returns a generator: an object that hands
  each token out once. \<open>drain\<close> is one complete iteration over it: it returns the tokens
  that were still to come and leaves the generator exhausted.
\<close>

type_synonym token = "char \<times> string"

datatype 'a generator = Generator (pending: "'a list")

definition drain :: "'a generator \<Rightarrow> 'a list \<times> 'a generator" where
  "drain g = (pending g, Generator [])"

text \<open>\<^verbatim>\<open>sum(1 for _ in changeset if p(_))\<close>: one iteration over the generator.\<close>

definition count_if :: "('a \<Rightarrow> bool) \<Rightarrow> 'a generator \<Rightarrow> int \<times> 'a generator" where
  "count_if p g = (case drain g of (items, g') \<Rightarrow> (int (length (filter p items)), g'))"

text \<open>Lines 80 to 83 of \<^verbatim>\<open>AlignmentMatrix.__init__\<close>: the weight of a substitution node.\<close>

definition substitution_weight :: "(string \<Rightarrow> string \<Rightarrow> token list) \<Rightarrow> string \<Rightarrow> string \<Rightarrow> int" where
  "substitution_weight ndiff line_b line_a =
     (let changeset = Generator (ndiff line_b line_a) in
      case count_if (\<lambda>t. fst t \<noteq> CHR '' '') changeset of (edit_dist, changeset) \<Rightarrow>
      case count_if (\<lambda>t. fst t \<in> set [CHR ''+'', CHR ''-'']) changeset of (operations, changeset) \<Rightarrow>
        edit_dist * ((operations + 1) div 2))"

section \<open>Points, nodes and the alignment matrix\<close>

text \<open>
  Coordinates are produced by \<^verbatim>\<open>range\<close> and by adding 0 or 1 to a coordinate only, so a
  \<^verbatim>\<open>Point\<close> holds natural numbers. Index expressions that subtract
  (\<^verbatim>\<open>line_matrix_x_len - 2\<close>) are computed over the integers.
\<close>

datatype Point = Point (pt_x: nat) (pt_y: nat)

record AlignmentNode =
  node_id :: Point
  weight :: int
  relax_weight :: pynum
  relax_parent :: Point

definition AlignmentNode_init :: "nat \<Rightarrow> nat \<Rightarrow> int \<Rightarrow> AlignmentNode" where
  "AlignmentNode_init x y w =
     \<lparr>node_id = Point x y, weight = w, relax_weight = Inf, relax_parent = Point 0 0\<rparr>"

definition relax :: "AlignmentNode \<Rightarrow> Point \<Rightarrow> pynum \<Rightarrow> AlignmentNode" where
  "relax self predecessor_id predecessor_weight =
     (let candidate_weight = pynum_add predecessor_weight (weight self) in
      if pynum_less candidate_weight (relax_weight self)
      then self\<lparr>relax_weight := candidate_weight, relax_parent := predecessor_id\<rparr>
      else self)"

record AlignmentMatrix =
  line_matrix_x_len :: nat
  line_matrix_y_len :: nat
  line_matrix :: "AlignmentNode list list"

text \<open>The weight chosen at lines 70 to 83 for the node at \<open>(x, y)\<close>.\<close>

definition init_weight ::
  "(string \<Rightarrow> string \<Rightarrow> token list) \<Rightarrow> string list \<Rightarrow> string list \<Rightarrow> nat \<Rightarrow> nat \<Rightarrow> error + int" where
  "init_weight ndiff lines_b lines_a x y =
     (let unalign_b_weights = map (\<lambda>line. int (length line)) lines_b;
          unalign_a_weights = map (\<lambda>line. int (length line)) lines_a;
          aligned_x = (x mod 2 \<noteq> 0);
          aligned_y = (y mod 2 \<noteq> 0)
      in if \<not> aligned_x \<and> \<not> aligned_y then Inr (- 1)
         else if aligned_x \<and> \<not> aligned_y then py_get unalign_b_weights (int (x div 2))
         else if \<not> aligned_x \<and> aligned_y then py_get unalign_a_weights (int (y div 2))
         else ebind (py_get lines_b (int (x div 2))) (\<lambda>line_b.
              ebind (py_get lines_a (int (y div 2))) (\<lambda>line_a.
              Inr (substitution_weight ndiff line_b line_a))))"

definition AlignmentMatrix_init ::
  "(string \<Rightarrow> string \<Rightarrow> token list) \<Rightarrow> string list \<Rightarrow> string list \<Rightarrow> error + AlignmentMatrix" where
  "AlignmentMatrix_init ndiff lines_b lines_a =
     (let x_len = length lines_b * 2 + 1;
          y_len = length lines_a * 2 + 1
      in ebind
           (collect (\<lambda>x. collect (\<lambda>y.
              ebind (init_weight ndiff lines_b lines_a x y) (\<lambda>w. Inr (AlignmentNode_init x y w)))
              [0..<y_len]) [0..<x_len])
           (\<lambda>rows. Inr \<lparr>line_matrix_x_len = x_len, line_matrix_y_len = y_len, line_matrix = rows\<rparr>))"

text \<open>
  Reading \<^verbatim>\<open>self.line_matrix[p.x][p.y]\<close>, and writing a changed node back to the cell it
  was read from. The nodes of the matrix are distinct objects, one per cell, so a change
  to a node is a change to its cell and to no other.
\<close>

definition node_at :: "AlignmentMatrix \<Rightarrow> Point \<Rightarrow> error + AlignmentNode" where
  "node_at self p =
     ebind (py_get (line_matrix self) (int (pt_x p))) (\<lambda>row. py_get row (int (pt_y p)))"

definition store_at :: "AlignmentMatrix \<Rightarrow> Point \<Rightarrow> AlignmentNode \<Rightarrow> AlignmentMatrix" where
  "store_at self p v =
     self\<lparr>line_matrix := (line_matrix self)[pt_x p := (line_matrix self ! pt_x p)[pt_y p := v]]\<rparr>"

definition root_adjacency :: "AlignmentMatrix \<Rightarrow> Point list" where
  "root_adjacency self = [Point 0 1, Point 1 0, Point 1 1]"

definition adjacency :: "AlignmentMatrix \<Rightarrow> AlignmentNode \<Rightarrow> Point list" where
  "adjacency self node =
     (let next_x = pt_x (node_id node) + pt_x (node_id node) mod 2;
          next_y = pt_y (node_id node) + pt_y (node_id node) mod 2;
          next_x_aligned = next_x + 1;
          next_y_aligned = next_y + 1
      in (if next_x_aligned < line_matrix_x_len self then [Point next_x_aligned next_y] else [])
       @ (if next_y_aligned < line_matrix_y_len self then [Point next_x next_y_aligned] else [])
       @ (if next_x_aligned < line_matrix_x_len self \<and> next_y_aligned < line_matrix_y_len self
          then [Point next_x_aligned next_y_aligned] else []))"

text \<open>
  The loop of \<^verbatim>\<open>walk_path\<close>. Nothing in the loop itself bounds the number of iterations,
  so the result is an \<open>option\<close>: \<open>None\<close> is a walk that never ends.
\<close>

partial_function (option) walk_loop ::
  "AlignmentMatrix \<Rightarrow> AlignmentNode \<Rightarrow> Point list \<Rightarrow> (error + Point list) option" where
  "walk_loop self pos path =
     (if pt_x (node_id pos) > 0 \<or> pt_y (node_id pos) > 0 then
        (case node_at self (node_id pos) of
           Inl e \<Rightarrow> Some (Inl e)
         | Inr cur \<Rightarrow>
            (case node_at self (relax_parent cur) of
               Inl e \<Rightarrow> Some (Inl e)
             | Inr nxt \<Rightarrow> walk_loop self nxt (path @ [node_id pos])))
      else Some (Inr path))"

declare walk_loop.simps [code]

definition walk_path :: "AlignmentMatrix \<Rightarrow> AlignmentNode \<Rightarrow> (error + Point list) option" where
  "walk_path self exit_node =
     (case walk_loop self exit_node [] of
        None \<Rightarrow> None
      | Some (Inl e) \<Rightarrow> Some (Inl e)
      | Some (Inr path) \<Rightarrow> Some (Inr (rev path)))"

text \<open>Lines 129 to 131 of \<^verbatim>\<open>shortest_path\<close>.\<close>

definition init_roots :: "AlignmentMatrix \<Rightarrow> error + AlignmentMatrix" where
  "init_roots self =
     for_each (\<lambda>adj m. ebind (node_at m adj) (\<lambda>vertex.
                 Inr (store_at m adj (vertex\<lparr>relax_weight := Fin 0\<rparr>))))
       (root_adjacency self) self"

text \<open>Lines 145 to 155: the body of the two nested loops, and the loops.\<close>

definition visit :: "nat \<Rightarrow> nat \<Rightarrow> AlignmentMatrix \<Rightarrow> error + AlignmentMatrix" where
  "visit x y self =
     (if (x OR y) mod 2 = 0 then Inr self
      else ebind (node_at self (Point x y)) (\<lambda>vertex.
             let vertex_id = node_id vertex;
                 vertex_weight = relax_weight vertex
             in for_each (\<lambda>adj m. ebind (node_at m adj) (\<lambda>child.
                            Inr (store_at m adj (relax child vertex_id vertex_weight))))
                  (adjacency self vertex) self))"

definition sweep :: "AlignmentMatrix \<Rightarrow> error + AlignmentMatrix" where
  "sweep self =
     for_each (\<lambda>x. for_each (\<lambda>y. visit x y) [0..<line_matrix_y_len self])
       [0..<line_matrix_x_len self] self"

text \<open>Lines 160 to 168: the three exit nodes and the choice among them.\<close>

definition select_exit :: "AlignmentMatrix \<Rightarrow> error + AlignmentNode" where
  "select_exit self =
     ebind (py_get (line_matrix self) (int (line_matrix_x_len self) - 2)) (\<lambda>row_xy.
     ebind (py_get row_xy (int (line_matrix_y_len self) - 2)) (\<lambda>exit_xy.
     ebind (py_get (line_matrix self) (int (line_matrix_x_len self) - 2)) (\<lambda>row_x.
     ebind (py_get row_x (int (line_matrix_y_len self) - 1)) (\<lambda>exit_x.
     ebind (py_get (line_matrix self) (int (line_matrix_x_len self) - 1)) (\<lambda>row_y.
     ebind (py_get row_y (int (line_matrix_y_len self) - 2)) (\<lambda>exit_y.
       if pynum_less (relax_weight exit_x) (relax_weight exit_y)
          \<and> pynum_less (relax_weight exit_x) (relax_weight exit_xy) then Inr exit_x
       else if pynum_less (relax_weight exit_y) (relax_weight exit_xy) then Inr exit_y
       else Inr exit_xy))))))"

definition shortest_path :: "AlignmentMatrix \<Rightarrow> (error + Point list) option" where
  "shortest_path self =
     (case init_roots self of
        Inl e \<Rightarrow> Some (Inl e)
      | Inr rooted \<Rightarrow>
         (case sweep rooted of
            Inl e \<Rightarrow> Some (Inl e)
          | Inr swept \<Rightarrow>
             (case select_exit swept of
                Inl e \<Rightarrow> Some (Inl e)
              | Inr exit_node \<Rightarrow> walk_path swept exit_node)))"

text \<open>Lines 176 to 178: the pair of a point of the path.\<close>

definition pair_of :: "string list \<Rightarrow> string list \<Rightarrow> Point \<Rightarrow> error + (string option \<times> string option)" where
  "pair_of lines_b lines_a point =
     ebind (if pt_x point mod 2 \<noteq> 0 then map_sum id Some (py_get lines_b (int (pt_x point div 2)))
            else Inr None) (\<lambda>before.
     ebind (if pt_y point mod 2 \<noteq> 0 then map_sum id Some (py_get lines_a (int (pt_y point div 2)))
            else Inr None) (\<lambda>after.
     Inr (before, after)))"

definition align ::
  "(string \<Rightarrow> string \<Rightarrow> token list) \<Rightarrow> string list \<Rightarrow> string list
     \<Rightarrow> (error + (string option \<times> string option) list) option" where
  "align ndiff lines_b lines_a =
     (case AlignmentMatrix_init ndiff lines_b lines_a of
        Inl e \<Rightarrow> Some (Inl e)
      | Inr matrix \<Rightarrow>
         (case shortest_path matrix of
            None \<Rightarrow> None
          | Some (Inl e) \<Rightarrow> Some (Inl e)
          | Some (Inr path) \<Rightarrow> Some (collect (pair_of lines_b lines_a) path)))"

section \<open>Notions used to state and prove the properties\<close>

text \<open>
  The substitution cost as the specification words it: \<open>D\<close> times the ceiling of
  \<open>K / 2\<close>, with \<open>D\<close> the number of tokens that are not "equal" and \<open>K\<close> the number of
  insertion or deletion tokens of one and the same character diff. It is compared with
  \<open>substitution_weight\<close>, which is what the source computes.
\<close>

definition spec_substitution_cost :: "token list \<Rightarrow> int" where
  "spec_substitution_cost tokens =
     int (length (filter (\<lambda>t. fst t \<noteq> CHR '' '') tokens))
       * ((int (length (filter (\<lambda>t. fst t = CHR ''+'' \<or> fst t = CHR ''-'') tokens)) + 1) div 2)"

text \<open>
  The remaining definitions describe matrices and paths: the node in a cell, a matrix of
  a given size whose nodes carry their own coordinates, the weights and the matrix that
  \<^verbatim>\<open>AlignmentMatrix.__init__\<close> produces, the relation "the node at \<open>(px, py)\<close> relaxes the
  node at \<open>(x, y)\<close>", and the invariant of the sweep.
\<close>

definition weight_of :: "string list \<Rightarrow> string list \<Rightarrow> nat \<Rightarrow> nat \<Rightarrow> int" where
  "weight_of lines_b lines_a x y =
     (if even x \<and> even y then - 1
      else if odd x \<and> even y then int (length (lines_b ! (x div 2)))
      else if even x \<and> odd y then int (length (lines_a ! (y div 2)))
      else 0)"

definition fresh_matrix :: "string list \<Rightarrow> string list \<Rightarrow> AlignmentMatrix" where
  "fresh_matrix lines_b lines_a =
     \<lparr>line_matrix_x_len = length lines_b * 2 + 1,
      line_matrix_y_len = length lines_a * 2 + 1,
      line_matrix = map (\<lambda>x. map (\<lambda>y. AlignmentNode_init x y (weight_of lines_b lines_a x y))
                                [0..<length lines_a * 2 + 1]) [0..<length lines_b * 2 + 1]\<rparr>"

definition cell :: "AlignmentMatrix \<Rightarrow> nat \<Rightarrow> nat \<Rightarrow> AlignmentNode" where
  "cell M x y = line_matrix M ! x ! y"

definition shaped :: "nat \<Rightarrow> nat \<Rightarrow> AlignmentMatrix \<Rightarrow> bool" where
  "shaped X Y M \<longleftrightarrow>
     line_matrix_x_len M = X \<and> line_matrix_y_len M = Y \<and> length (line_matrix M) = X \<and>
     (\<forall>x<X. length (line_matrix M ! x) = Y) \<and>
     (\<forall>x<X. \<forall>y<Y. node_id (cell M x y) = Point x y)"

definition feeds :: "nat \<Rightarrow> nat \<Rightarrow> nat \<Rightarrow> nat \<Rightarrow> bool" where
  "feeds px py x y \<longleftrightarrow>
     \<not> (even px \<and> even py) \<and> \<not> (even x \<and> even y) \<and>
     (px + 1) div 2 = x div 2 \<and> (py + 1) div 2 = y div 2"

definition relax_at :: "Point \<Rightarrow> pynum \<Rightarrow> nat \<Rightarrow> nat \<Rightarrow> AlignmentMatrix \<Rightarrow> AlignmentMatrix" where
  "relax_at p w qx qy M = store_at M (Point qx qy) (relax (cell M qx qy) p w)"

definition linked :: "nat \<Rightarrow> nat \<Rightarrow> AlignmentMatrix \<Rightarrow> nat \<Rightarrow> nat \<Rightarrow> bool" where
  "linked X Y M qx qy \<longleftrightarrow>
     pt_x (relax_parent (cell M qx qy)) < X \<and> pt_y (relax_parent (cell M qx qy)) < Y \<and>
     feeds (pt_x (relax_parent (cell M qx qy))) (pt_y (relax_parent (cell M qx qy))) qx qy"

definition sweep_inv :: "nat \<Rightarrow> nat \<Rightarrow> (nat \<Rightarrow> nat \<Rightarrow> int) \<Rightarrow> nat \<Rightarrow> nat \<Rightarrow> AlignmentMatrix \<Rightarrow> bool" where
  "sweep_inv X Y W cx cy M \<longleftrightarrow>
     shaped X Y M \<and>
     (\<forall>qx<X. \<forall>qy<Y. weight (cell M qx qy) = W qx qy) \<and>
     (\<forall>qx<X. \<forall>qy<Y. \<not> (even qx \<and> even qy) \<longrightarrow>
        (if qx \<le> 1 \<and> qy \<le> 1
         then relax_weight (cell M qx qy) \<noteq> Inf \<and> relax_parent (cell M qx qy) = Point 0 0
         else (relax_weight (cell M qx qy) \<noteq> Inf \<longrightarrow> linked X Y M qx qy) \<and>
              (\<forall>px<X. \<forall>py<Y. feeds px py qx qy \<longrightarrow> (px < cx \<or> px = cx \<and> py < cy) \<longrightarrow>
                  relax_weight (cell M qx qy) \<noteq> Inf)))"

definition set_root :: "nat \<Rightarrow> nat \<Rightarrow> AlignmentMatrix \<Rightarrow> AlignmentMatrix" where
  "set_root x y M = store_at M (Point x y) ((cell M x y)\<lparr>relax_weight := Fin 0\<rparr>)"

definition settled :: "nat \<Rightarrow> nat \<Rightarrow> AlignmentMatrix \<Rightarrow> bool" where
  "settled X Y M \<longleftrightarrow>
     shaped X Y M \<and>
     (\<forall>qx<X. \<forall>qy<Y. \<not> (even qx \<and> even qy) \<longrightarrow>
        (if qx \<le> 1 \<and> qy \<le> 1 then relax_parent (cell M qx qy) = Point 0 0
         else linked X Y M qx qy))"

fun leads :: "nat \<times> nat \<Rightarrow> Point list \<Rightarrow> nat \<times> nat \<Rightarrow> bool" where
  "leads s [] t \<longleftrightarrow> s = t"
| "leads s (p # ps) t \<longleftrightarrow>
     \<not> (even (pt_x p) \<and> even (pt_y p)) \<and> s = (pt_x p div 2, pt_y p div 2) \<and>
     leads ((pt_x p + 1) div 2, (pt_y p + 1) div 2) ps t"

fun parent_chain :: "AlignmentMatrix \<Rightarrow> Point list \<Rightarrow> bool" where
  "parent_chain M [] \<longleftrightarrow> True"
| "parent_chain M (p # ps) \<longleftrightarrow>
     relax_parent (cell M (pt_x p) (pt_y p)) = (case ps of [] \<Rightarrow> Point 0 0 | q # qs \<Rightarrow> q) \<and>
     parent_chain M ps"

definition consumed :: "Point \<Rightarrow> nat \<times> nat" where
  "consumed p = ((pt_x p + 1) div 2, (pt_y p + 1) div 2)"

definition pure_pair :: "string list \<Rightarrow> string list \<Rightarrow> Point \<Rightarrow> string option \<times> string option" where
  "pure_pair lines_b lines_a p =
     (if odd (pt_x p) then Some (lines_b ! (pt_x p div 2)) else None,
      if odd (pt_y p) then Some (lines_a ! (pt_y p div 2)) else None)"

definition pair_cost :: "(string \<Rightarrow> string \<Rightarrow> token list) \<Rightarrow> string option \<times> string option \<Rightarrow> int" where
  "pair_cost ndiff pair =
     (case pair of
        (Some line_b, Some line_a) \<Rightarrow> spec_substitution_cost (ndiff line_b line_a)
      | (Some line_b, None) \<Rightarrow> int (length line_b)
      | (None, Some line_a) \<Rightarrow> int (length line_a)
      | (None, None) \<Rightarrow> 0)"

definition unaligned_cost :: "string list \<Rightarrow> string list \<Rightarrow> int" where
  "unaligned_cost lines_b lines_a =
     sum_list (map (\<lambda>line. int (length line)) lines_b)
       + sum_list (map (\<lambda>line. int (length line)) lines_a)"

definition swept :: "(string \<Rightarrow> string \<Rightarrow> token list) \<Rightarrow> string list \<Rightarrow> string list \<Rightarrow> error + AlignmentMatrix" where
  "swept ndiff lines_b lines_a =
     ebind (AlignmentMatrix_init ndiff lines_b lines_a) (\<lambda>matrix. ebind (init_roots matrix) sweep)"

subsection \<open>The relaxed matrix as a table, and its mirror image\<close>















lemma substitution_weight_zero: "substitution_weight ndiff line_b line_a = 0"
  by (simp add: substitution_weight_def count_if_def drain_def)

lemma py_get_nat: "py_get xs (int i) = (if i < length xs then Inr (xs ! i) else Inl IndexError)"
  by (simp add: py_get_def)

lemma ebind_Inr [simp]: "ebind (Inr v) f = f v"
  by (simp add: ebind_def)

lemma ebind_Inl [simp]: "ebind (Inl e) f = Inl e"
  by (simp add: ebind_def)

lemma collect_map:
  "(\<And>v. v \<in> set vs \<Longrightarrow> f v = Inr (g v)) \<Longrightarrow> collect f vs = Inr (map g vs)"
  by (induction vs) simp_all

lemma for_each_append:
  "for_each body (vs @ ws) s =
     (case for_each body vs s of Inl e \<Rightarrow> Inl e | Inr s' \<Rightarrow> for_each body ws s')"
  by (induction vs arbitrary: s) (simp_all split: sum.splits)

lemma for_each_upt:
  assumes start: "I 0 s"
    and step: "\<And>i t. i < n \<Longrightarrow> I i t \<Longrightarrow> \<exists>t'. body i t = Inr t' \<and> I (Suc i) t'"
  shows "\<exists>t. for_each body [0..<n] s = Inr t \<and> I n t"
proof -
  have "k \<le> n \<Longrightarrow> \<exists>t. for_each body [0..<k] s = Inr t \<and> I k t" for k
  proof (induction k)
    case 0
    then show ?case using start by simp
  next
    case (Suc k)
    then obtain t where t: "for_each body [0..<k] s = Inr t" "I k t" by auto
    from Suc.prems have "k < n" by simp
    from step [OF this t(2)] obtain t' where "body k t = Inr t'" "I (Suc k) t'" by blast
    with t show ?case by (simp add: for_each_append)
  qed
  then show ?thesis by simp
qed

lemma init_weight_in_range:
  assumes "x \<le> length lines_b * 2" "y \<le> length lines_a * 2"
  shows "init_weight ndiff lines_b lines_a x y = Inr (weight_of lines_b lines_a x y)"
proof -
  have bx: "odd x \<Longrightarrow> x div 2 < length lines_b" using assms(1) by presburger
  have ay: "odd y \<Longrightarrow> y div 2 < length lines_a" using assms(2) by presburger
  show ?thesis
    using bx ay
    by (auto simp: init_weight_def weight_of_def py_get_nat substitution_weight_zero Let_def
        odd_iff_mod_2_eq_one even_iff_mod_2_eq_zero)
qed

lemma AlignmentMatrix_init_eq:
  "AlignmentMatrix_init ndiff lines_b lines_a = Inr (fresh_matrix lines_b lines_a)"
proof -
  let ?node = "\<lambda>x y. ebind (init_weight ndiff lines_b lines_a x y)
                 (\<lambda>w. Inr (AlignmentNode_init x y w))"
  let ?pure = "\<lambda>x y. AlignmentNode_init x y (weight_of lines_b lines_a x y)"
  have row: "collect (?node x) [0..<length lines_a * 2 + 1]
        = Inr (map (?pure x) [0..<length lines_a * 2 + 1])"
    if x: "x \<le> length lines_b * 2" for x
  proof (rule collect_map)
    fix y assume "y \<in> set [0..<length lines_a * 2 + 1]"
    then have "y \<le> length lines_a * 2" by auto
    with x show "?node x y = Inr (?pure x y)"
      by (simp add: init_weight_in_range)
  qed
  have "collect (\<lambda>x. collect (?node x) [0..<length lines_a * 2 + 1])
          [0..<length lines_b * 2 + 1]
        = Inr (map (\<lambda>x. map (?pure x) [0..<length lines_a * 2 + 1])
                 [0..<length lines_b * 2 + 1])"
  proof (rule collect_map)
    fix x assume "x \<in> set [0..<length lines_b * 2 + 1]"
    then have "x \<le> length lines_b * 2" by auto
    then show "collect (?node x) [0..<length lines_a * 2 + 1]
        = Inr (map (?pure x) [0..<length lines_a * 2 + 1])"
      by (rule row)
  qed
  then show ?thesis
    unfolding AlignmentMatrix_init_def fresh_matrix_def Let_def by simp
qed

lemma node_at_shaped:
  "shaped X Y M \<Longrightarrow>
   node_at M (Point x y) = (if x < X \<and> y < Y then Inr (cell M x y) else Inl IndexError)"
  by (auto simp: shaped_def node_at_def py_get_nat cell_def)

lemma shaped_store_at:
  "shaped X Y M \<Longrightarrow> x < X \<Longrightarrow> y < Y \<Longrightarrow> node_id v = Point x y \<Longrightarrow>
   shaped X Y (store_at M (Point x y) v)"
  by (auto simp: shaped_def store_at_def cell_def nth_list_update)

lemma cell_store_at:
  "shaped X Y M \<Longrightarrow> x < X \<Longrightarrow> y < Y \<Longrightarrow> qx < X \<Longrightarrow> qy < Y \<Longrightarrow>
   cell (store_at M (Point x y) v) qx qy = (if qx = x \<and> qy = y then v else cell M qx qy)"
  by (auto simp: shaped_def store_at_def cell_def nth_list_update)

lemma node_id_relax [simp]: "node_id (relax c p w) = node_id c"
  by (simp add: relax_def Let_def)

lemma weight_relax [simp]: "weight (relax c p w) = weight c"
  by (simp add: relax_def Let_def)

lemma child_step:
  "shaped X Y M \<Longrightarrow> qx < X \<Longrightarrow> qy < Y \<Longrightarrow>
   ebind (node_at M (Point qx qy)) (\<lambda>child. Inr (store_at M (Point qx qy) (relax child p w)))
     = Inr (relax_at p w qx qy M)"
  by (simp add: node_at_shaped relax_at_def)

lemma shaped_relax_at:
  "shaped X Y M \<Longrightarrow> qx < X \<Longrightarrow> qy < Y \<Longrightarrow> shaped X Y (relax_at p w qx qy M)"
  unfolding relax_at_def by (rule shaped_store_at) (auto simp: shaped_def)

lemma cell_relax_at:
  "shaped X Y M \<Longrightarrow> qx < X \<Longrightarrow> qy < Y \<Longrightarrow> rx < X \<Longrightarrow> ry < Y \<Longrightarrow>
   cell (relax_at p w qx qy M) rx ry =
     (if rx = qx \<and> ry = qy then relax (cell M qx qy) p w else cell M rx ry)"
  unfolding relax_at_def by (simp add: cell_store_at)

lemma or_mod_2: "((x::nat) OR y) mod 2 = 0 \<longleftrightarrow> even x \<and> even y"
  by (simp add: even_or_iff flip: even_iff_mod_2_eq_zero)

lemma visit_placeholder: "even x \<Longrightarrow> even y \<Longrightarrow> visit x y M = Inr M"
  by (simp add: visit_def or_mod_2)

lemma adjacency_shaped:
  assumes "shaped X Y M" "x < X" "y < Y"
  shows "adjacency M (cell M x y) =
     (if x + x mod 2 + 1 < X then [Point (x + x mod 2 + 1) (y + y mod 2)] else [])
   @ (if y + y mod 2 + 1 < Y then [Point (x + x mod 2) (y + y mod 2 + 1)] else [])
   @ (if x + x mod 2 + 1 < X \<and> y + y mod 2 + 1 < Y
      then [Point (x + x mod 2 + 1) (y + y mod 2 + 1)] else [])"
  using assms by (simp add: adjacency_def shaped_def Let_def)

lemma half_step:
  "((x::nat) + 1) div 2 = qx div 2 \<longleftrightarrow> qx = x + x mod 2 \<or> qx = x + x mod 2 + 1"
  by (cases "even x"; cases "even qx") (auto elim!: evenE oddE)

lemma even_next: "even ((x::nat) + x mod 2)"
  by (cases "even x") (auto elim!: evenE oddE)

lemma feeds_cases:
  "feeds x y qx qy \<longleftrightarrow>
     \<not> (even x \<and> even y) \<and>
     (qx = x + x mod 2 + 1 \<and> qy = y + y mod 2 \<or>
      qx = x + x mod 2 \<and> qy = y + y mod 2 + 1 \<or>
      qx = x + x mod 2 + 1 \<and> qy = y + y mod 2 + 1)"
  using even_next [of x] even_next [of y]
  unfolding feeds_def half_step by auto

lemma visit_spec:
  assumes sh: "shaped X Y M" and x: "x < X" and y: "y < Y" and np: "\<not> (even x \<and> even y)"
    and oX: "odd X" and oY: "odd Y"
  shows "\<exists>M'. visit x y M = Inr M' \<and> shaped X Y M' \<and>
           (\<forall>qx<X. \<forall>qy<Y. cell M' qx qy =
              (if feeds x y qx qy
               then relax (cell M qx qy) (Point x y) (relax_weight (cell M x y))
               else cell M qx qy))"
proof -
  define nx ny where "nx = x + x mod 2" and "ny = y + y mod 2"
  let ?p = "Point x y" and ?w = "relax_weight (cell M x y)"
  let ?body = "\<lambda>adj m. ebind (node_at m adj) (\<lambda>child. Inr (store_at m adj (relax child ?p ?w)))"
  have id: "node_id (cell M x y) = Point x y"
    using sh x y by (simp add: shaped_def)
  have v: "visit x y M = for_each ?body (adjacency M (cell M x y)) M"
    using np sh x y by (auto simp add: visit_def or_mod_2 node_at_shaped Let_def id)
  have fc: "feeds x y qx qy \<longleftrightarrow>
      (qx = nx + 1 \<and> qy = ny \<or> qx = nx \<and> qy = ny + 1 \<or> qx = nx + 1 \<and> qy = ny + 1)" for qx qy
    using np by (simp add: feeds_cases nx_def ny_def)
  have step: "?body (Point qx qy) N = Inr (relax_at ?p ?w qx qy N)"
    if "shaped X Y N" "qx < X" "qy < Y" for qx qy N
    using that by (rule child_step)
  note sra = shaped_relax_at and cra = cell_relax_at
  consider (both) "nx + 1 < X" "ny + 1 < Y" | (xonly) "nx + 1 < X" "\<not> ny + 1 < Y"
    | (yonly) "\<not> nx + 1 < X" "ny + 1 < Y" | (none) "\<not> nx + 1 < X" "\<not> ny + 1 < Y"
    by blast
  then show ?thesis
  proof cases
    case both
    have nxX: "nx < X" and nyY: "ny < Y" using both by simp_all
    let ?M1 = "relax_at ?p ?w (nx + 1) ny M"
    let ?M2 = "relax_at ?p ?w nx (ny + 1) ?M1"
    let ?M3 = "relax_at ?p ?w (nx + 1) (ny + 1) ?M2"
    have s1: "shaped X Y ?M1" using both nyY by (intro sra [OF sh])
    have s2: "shaped X Y ?M2" using both nxX by (intro sra [OF s1])
    have s3: "shaped X Y ?M3" using both by (intro sra [OF s2])
    have "visit x y M = Inr ?M3"
      using both sh s1 s2 nxX nyY
      by (simp add: v adjacency_shaped [OF sh x y] step flip: nx_def ny_def)
    moreover have "cell ?M3 qx qy =
        (if feeds x y qx qy then relax (cell M qx qy) ?p ?w else cell M qx qy)"
      if "qx < X" "qy < Y" for qx qy
      using that both nxX nyY sh s1 s2 by (simp add: cra fc)
    ultimately show ?thesis using s3 by blast
  next
    case xonly
    have nyY: "ny < Y" using y oY by (cases "even y") (auto simp: ny_def elim!: evenE oddE)
    let ?M1 = "relax_at ?p ?w (nx + 1) ny M"
    have s1: "shaped X Y ?M1" using xonly nyY by (intro sra [OF sh])
    have "visit x y M = Inr ?M1"
      using xonly sh nyY
      by (simp add: v adjacency_shaped [OF sh x y] step flip: nx_def ny_def)
    moreover have "cell ?M1 qx qy =
        (if feeds x y qx qy then relax (cell M qx qy) ?p ?w else cell M qx qy)"
      if "qx < X" "qy < Y" for qx qy
      using that xonly nyY sh by (auto simp add: cra fc)
    ultimately show ?thesis using s1 by blast
  next
    case yonly
    have nxX: "nx < X" using x oX by (cases "even x") (auto simp: nx_def elim!: evenE oddE)
    let ?M1 = "relax_at ?p ?w nx (ny + 1) M"
    have s1: "shaped X Y ?M1" using yonly nxX by (intro sra [OF sh])
    have "visit x y M = Inr ?M1"
      using yonly sh nxX
      by (simp add: v adjacency_shaped [OF sh x y] step flip: nx_def ny_def)
    moreover have "cell ?M1 qx qy =
        (if feeds x y qx qy then relax (cell M qx qy) ?p ?w else cell M qx qy)"
      if "qx < X" "qy < Y" for qx qy
      using that yonly nxX sh by (auto simp add: cra fc)
    ultimately show ?thesis using s1 by blast
  next
    case none
    have "visit x y M = Inr M"
      using none by (simp add: v adjacency_shaped [OF sh x y] flip: nx_def ny_def)
    moreover have "cell M qx qy =
        (if feeds x y qx qy then relax (cell M qx qy) ?p ?w else cell M qx qy)"
      if "qx < X" "qy < Y" for qx qy
      using that none by (auto simp add: fc)
    ultimately show ?thesis using sh by blast
  qed
qed

lemma feeds_not_root: "feeds px py x y \<Longrightarrow> \<not> (x \<le> 1 \<and> y \<le> 1)"
  unfolding feeds_def
  by (cases "even px"; cases "even py") (auto elim!: evenE oddE)

lemma feeds_decreases: "feeds px py x y \<Longrightarrow> px \<le> x \<and> py \<le> y \<and> px + py < x + y"
  unfolding feeds_def
  by (cases "even px"; cases "even py"; cases "even x"; cases "even y") (auto elim!: evenE oddE)

lemma has_source:
  assumes "\<not> (even x \<and> even y)" "\<not> (x \<le> 1 \<and> y \<le> 1)" "x < X" "y < Y"
  shows "\<exists>px py. px < X \<and> py < Y \<and> feeds px py x y \<and> (px < x \<or> px = x \<and> py < y)"
proof (cases "2 \<le> x")
  case True
  let ?px = "2 * (x div 2) - 1" and ?py = "2 * (y div 2)"
  have "?px < X" "?py < Y" "?px < x" using assms True by auto
  moreover have "feeds ?px ?py x y"
    using assms True unfolding feeds_def
    by (cases "even x"; cases "even y") (auto elim!: evenE oddE)
  ultimately show ?thesis by blast
next
  case False
  with assms have y2: "2 \<le> y" by auto
  let ?py = "2 * (y div 2) - 1"
  have "0 < X" "?py < Y" "?py < y" using assms y2 by auto
  moreover have "feeds 0 ?py x y"
    using assms y2 False unfolding feeds_def
    by (cases "even y") (auto elim!: evenE oddE)
  ultimately show ?thesis by (metis gr_zeroI)
qed

lemma relax_finite:
  assumes "w \<noteq> Inf"
  shows "relax_weight (relax c p w) \<noteq> Inf"
    and "relax_parent (relax c p w) = p \<or>
         (relax_weight c \<noteq> Inf \<and> relax_parent (relax c p w) = relax_parent c)"
  using assms by (cases w; cases "relax_weight c"; simp add: relax_def Let_def)+

lemma sweep_inv_source_finite:
  assumes inv: "sweep_inv X Y W x y M" and x: "x < X" and y: "y < Y"
    and np: "\<not> (even x \<and> even y)"
  shows "relax_weight (cell M x y) \<noteq> Inf"
proof (cases "x \<le> 1 \<and> y \<le> 1")
  case True
  with inv x y np show ?thesis unfolding sweep_inv_def by auto
next
  case False
  from has_source [OF np False x y] obtain px py where
    "px < X" "py < Y" "feeds px py x y" "px < x \<or> px = x \<and> py < y" by blast
  with inv x y np False show ?thesis unfolding sweep_inv_def by auto
qed

lemma sweep_inv_visit:
  assumes inv: "sweep_inv X Y W x y M" and x: "x < X" and y: "y < Y"
    and oX: "odd X" and oY: "odd Y"
  shows "\<exists>M'. visit x y M = Inr M' \<and> sweep_inv X Y W x (Suc y) M'"
proof (cases "even x \<and> even y")
  case True
  then have "visit x y M = Inr M" by (simp add: visit_placeholder)
  moreover have "sweep_inv X Y W x (Suc y) M"
    unfolding sweep_inv_def
  proof (intro conjI allI impI)
    fix qx qy assume q: "qx < X" "qy < Y" "\<not> (even qx \<and> even qy)"
    have old: "if qx \<le> 1 \<and> qy \<le> 1
         then relax_weight (cell M qx qy) \<noteq> Inf \<and> relax_parent (cell M qx qy) = Point 0 0
         else (relax_weight (cell M qx qy) \<noteq> Inf \<longrightarrow> linked X Y M qx qy) \<and>
              (\<forall>px<X. \<forall>py<Y. feeds px py qx qy \<longrightarrow> (px < x \<or> px = x \<and> py < y) \<longrightarrow>
                  relax_weight (cell M qx qy) \<noteq> Inf)"
      using inv q unfolding sweep_inv_def by blast
    have "\<not> feeds x y qx qy" using True by (simp add: feeds_def)
    then have "(px < x \<or> px = x \<and> py < y)" if "feeds px py qx qy" "px < x \<or> px = x \<and> py < Suc y"
      for px py using that by (metis less_Suc_eq)
    with old show "if qx \<le> 1 \<and> qy \<le> 1
         then relax_weight (cell M qx qy) \<noteq> Inf \<and> relax_parent (cell M qx qy) = Point 0 0
         else (relax_weight (cell M qx qy) \<noteq> Inf \<longrightarrow> linked X Y M qx qy) \<and>
              (\<forall>px<X. \<forall>py<Y. feeds px py qx qy \<longrightarrow> (px < x \<or> px = x \<and> py < Suc y) \<longrightarrow>
                  relax_weight (cell M qx qy) \<noteq> Inf)"
      by (auto split: if_splits)
  qed (use inv in \<open>auto simp: sweep_inv_def\<close>)
  ultimately show ?thesis by blast
next
  case False
  have sh: "shaped X Y M" using inv by (simp add: sweep_inv_def)
  from visit_spec [OF sh x y False oX oY] obtain M' where
    v: "visit x y M = Inr M'" and sh': "shaped X Y M'" and
    c: "\<And>qx qy. qx < X \<Longrightarrow> qy < Y \<Longrightarrow> cell M' qx qy =
          (if feeds x y qx qy
           then relax (cell M qx qy) (Point x y) (relax_weight (cell M x y))
           else cell M qx qy)"
    by blast
  have fin: "relax_weight (cell M x y) \<noteq> Inf"
    by (rule sweep_inv_source_finite [OF inv x y False])
  have "sweep_inv X Y W x (Suc y) M'"
    unfolding sweep_inv_def
  proof (intro conjI allI impI)
    show "shaped X Y M'" by (rule sh')
  next
    fix qx qy assume "qx < X" "qy < Y"
    then show "weight (cell M' qx qy) = W qx qy"
      using inv by (simp add: c sweep_inv_def)
  next
    fix qx qy assume q: "qx < X" "qy < Y" "\<not> (even qx \<and> even qy)"
    have old: "if qx \<le> 1 \<and> qy \<le> 1
         then relax_weight (cell M qx qy) \<noteq> Inf \<and> relax_parent (cell M qx qy) = Point 0 0
         else (relax_weight (cell M qx qy) \<noteq> Inf \<longrightarrow> linked X Y M qx qy) \<and>
              (\<forall>px<X. \<forall>py<Y. feeds px py qx qy \<longrightarrow> (px < x \<or> px = x \<and> py < y) \<longrightarrow>
                  relax_weight (cell M qx qy) \<noteq> Inf)"
      using inv q unfolding sweep_inv_def by blast
    show "if qx \<le> 1 \<and> qy \<le> 1
         then relax_weight (cell M' qx qy) \<noteq> Inf \<and> relax_parent (cell M' qx qy) = Point 0 0
         else (relax_weight (cell M' qx qy) \<noteq> Inf \<longrightarrow> linked X Y M' qx qy) \<and>
              (\<forall>px<X. \<forall>py<Y. feeds px py qx qy \<longrightarrow> (px < x \<or> px = x \<and> py < Suc y) \<longrightarrow>
                  relax_weight (cell M' qx qy) \<noteq> Inf)"
    proof (cases "feeds x y qx qy")
      case True
      then have nr: "\<not> (qx \<le> 1 \<and> qy \<le> 1)" by (rule feeds_not_root)
      have eq: "cell M' qx qy = relax (cell M qx qy) (Point x y) (relax_weight (cell M x y))"
        using q True by (simp add: c)
      have "relax_weight (cell M' qx qy) \<noteq> Inf"
        unfolding eq by (rule relax_finite(1) [OF fin])
      moreover have "linked X Y M' qx qy"
        using relax_finite(2) [OF fin, of "cell M qx qy" "Point x y"] old nr True x y
        unfolding linked_def eq by auto
      ultimately show ?thesis using nr by auto
    next
      case False
      then have eq: "cell M' qx qy = cell M qx qy" using q by (simp add: c)
      from False have "(px < x \<or> px = x \<and> py < y)"
        if "feeds px py qx qy" "px < x \<or> px = x \<and> py < Suc y" for px py
        using that by (metis less_Suc_eq)
      with old show ?thesis unfolding linked_def eq by (auto split: if_splits)
    qed
  qed
  with v show ?thesis by blast
qed

lemma shaped_fresh:
  "shaped (length lines_b * 2 + 1) (length lines_a * 2 + 1) (fresh_matrix lines_b lines_a)"
  by (simp add: shaped_def fresh_matrix_def cell_def AlignmentNode_init_def
      del: upt_Suc)

lemma cell_fresh:
  "x < length lines_b * 2 + 1 \<Longrightarrow> y < length lines_a * 2 + 1 \<Longrightarrow>
   cell (fresh_matrix lines_b lines_a) x y = AlignmentNode_init x y (weight_of lines_b lines_a x y)"
  by (simp add: fresh_matrix_def cell_def del: upt_Suc)

lemma root_step:
  "shaped X Y M \<Longrightarrow> x < X \<Longrightarrow> y < Y \<Longrightarrow>
   ebind (node_at M (Point x y)) (\<lambda>vertex. Inr (store_at M (Point x y) (vertex\<lparr>relax_weight := Fin 0\<rparr>)))
     = Inr (set_root x y M)"
  by (simp add: node_at_shaped set_root_def)

lemma shaped_set_root:
  "shaped X Y M \<Longrightarrow> x < X \<Longrightarrow> y < Y \<Longrightarrow> shaped X Y (set_root x y M)"
  unfolding set_root_def by (rule shaped_store_at) (auto simp: shaped_def)

lemma cell_set_root:
  "shaped X Y M \<Longrightarrow> x < X \<Longrightarrow> y < Y \<Longrightarrow> qx < X \<Longrightarrow> qy < Y \<Longrightarrow>
   cell (set_root x y M) qx qy =
     (if qx = x \<and> qy = y then (cell M x y)\<lparr>relax_weight := Fin 0\<rparr> else cell M qx qy)"
  unfolding set_root_def by (simp add: cell_store_at)

lemma is_root_cases:
  "\<not> (even qx \<and> even qy) \<and> qx \<le> 1 \<and> qy \<le> 1 \<longleftrightarrow>
   qx = 0 \<and> qy = 1 \<or> qx = 1 \<and> qy = 0 \<or> qx = 1 \<and> (qy::nat) = 1" for qx :: nat
  by (cases "qx = 0"; cases "qy = 0") auto

lemma init_roots_spec:
  assumes sh: "shaped X Y M" and X: "Suc 0 < X" and Y: "Suc 0 < Y"
  shows "\<exists>M'. init_roots M = Inr M' \<and> shaped X Y M' \<and>
           (\<forall>qx<X. \<forall>qy<Y. cell M' qx qy =
              (if \<not> (even qx \<and> even qy) \<and> qx \<le> 1 \<and> qy \<le> 1
               then (cell M qx qy)\<lparr>relax_weight := Fin 0\<rparr> else cell M qx qy))"
proof -
  let ?M1 = "set_root 0 (Suc 0) M"
  let ?M2 = "set_root (Suc 0) 0 ?M1"
  let ?M3 = "set_root (Suc 0) (Suc 0) ?M2"
  have X0: "0 < X" and Y0: "0 < Y" using X Y by simp_all
  have s1: "shaped X Y ?M1" by (rule shaped_set_root [OF sh X0 Y])
  have s2: "shaped X Y ?M2" by (rule shaped_set_root [OF s1 X Y0])
  have s3: "shaped X Y ?M3" by (rule shaped_set_root [OF s2 X Y])
  have "init_roots M = Inr ?M3"
    by (simp add: init_roots_def root_adjacency_def
        root_step [OF sh X0 Y] root_step [OF s1 X Y0] root_step [OF s2 X Y])
  moreover have "cell ?M3 qx qy =
      (if \<not> (even qx \<and> even qy) \<and> qx \<le> 1 \<and> qy \<le> 1
       then (cell M qx qy)\<lparr>relax_weight := Fin 0\<rparr> else cell M qx qy)"
    if "qx < X" "qy < Y" for qx qy
    unfolding is_root_cases
    using that
    by (auto simp add: cell_set_root [OF s2 X Y] cell_set_root [OF s1 X Y0]
        cell_set_root [OF sh X0 Y])
  ultimately show ?thesis using s3 by blast
qed

lemma init_roots_fails:
  assumes sh: "shaped X Y M" and small: "X \<le> 1 \<or> Y \<le> 1"
  shows "init_roots M = Inl IndexError"
proof (cases "Suc 0 < Y \<and> 0 < X")
  case False
  then have "node_at M (Point 0 (Suc 0)) = Inl IndexError"
    by (auto simp: node_at_shaped [OF sh])
  then show ?thesis
    by (simp add: init_roots_def root_adjacency_def)
next
  case True
  then have X: "\<not> Suc 0 < X" and X0: "0 < X" and Y: "Suc 0 < Y" using small by auto
  have s1: "shaped X Y (set_root 0 (Suc 0) M)" by (rule shaped_set_root [OF sh X0 Y])
  show ?thesis
    using X
    by (simp add: init_roots_def root_adjacency_def root_step [OF sh X0 Y]
        node_at_shaped [OF s1])
qed

lemma align_one_side_empty_aux:
  assumes "lines_b = [] \<or> lines_a = []"
  shows "align ndiff lines_b lines_a = Some (Inl IndexError)"
proof -
  have "init_roots (fresh_matrix lines_b lines_a) = Inl IndexError"
    using assms by (intro init_roots_fails [OF shaped_fresh]) auto
  then show ?thesis
    by (simp add: align_def AlignmentMatrix_init_eq shortest_path_def)
qed

lemma sweep_inv_next_row:
  assumes "sweep_inv X Y W x Y M"
  shows "sweep_inv X Y W (Suc x) 0 M"
proof -
  have "(px < Suc x \<or> px = Suc x \<and> py < 0) \<longleftrightarrow> (px < x \<or> px = x \<and> py < Y)" if "py < Y" for px py
    using that by auto
  with assms show ?thesis unfolding sweep_inv_def by (auto split: if_splits)
qed

lemma sweep_inv_row:
  assumes inv: "sweep_inv X Y W x 0 M" and x: "x < X" and oX: "odd X" and oY: "odd Y"
  shows "\<exists>M'. for_each (\<lambda>y. visit x y) [0..<Y] M = Inr M' \<and> sweep_inv X Y W (Suc x) 0 M'"
proof -
  have "\<exists>M'. for_each (\<lambda>y. visit x y) [0..<Y] M = Inr M' \<and> sweep_inv X Y W x Y M'"
    by (rule for_each_upt [where I = "\<lambda>y. sweep_inv X Y W x y", OF inv])
       (rule sweep_inv_visit [OF _ x _ oX oY])
  then show ?thesis using sweep_inv_next_row by blast
qed

lemma sweep_inv_sweep:
  assumes inv: "sweep_inv X Y W 0 0 M" and oX: "odd X" and oY: "odd Y"
  shows "\<exists>M'. sweep M = Inr M' \<and> sweep_inv X Y W X 0 M'"
proof -
  have len: "line_matrix_x_len M = X" "line_matrix_y_len M = Y"
    using inv by (simp_all add: sweep_inv_def shaped_def)
  show ?thesis
    unfolding sweep_def len
    by (rule for_each_upt [where I = "\<lambda>x. sweep_inv X Y W x 0", OF inv])
       (rule sweep_inv_row [OF _ _ oX oY])
qed

lemma sweep_inv_settled:
  assumes "sweep_inv X Y W X 0 M"
  shows "settled X Y M"
  unfolding settled_def
proof (intro conjI allI impI)
  show "shaped X Y M" using assms by (simp add: sweep_inv_def)
next
  fix qx qy assume q: "qx < X" "qy < Y" "\<not> (even qx \<and> even qy)"
  show "if qx \<le> 1 \<and> qy \<le> 1 then relax_parent (cell M qx qy) = Point 0 0
        else linked X Y M qx qy"
  proof (cases "qx \<le> 1 \<and> qy \<le> 1")
    case True
    with assms q show ?thesis unfolding sweep_inv_def by auto
  next
    case False
    from has_source [OF q(3) False q(1,2)] obtain px py where
      p: "px < X" "py < Y" "feeds px py qx qy" by blast
    have "(relax_weight (cell M qx qy) \<noteq> Inf \<longrightarrow> linked X Y M qx qy) \<and>
              (\<forall>px<X. \<forall>py<Y. feeds px py qx qy \<longrightarrow> (px < X \<or> px = X \<and> py < 0) \<longrightarrow>
                  relax_weight (cell M qx qy) \<noteq> Inf)"
      using assms q False unfolding sweep_inv_def by auto
    with p False show ?thesis by auto
  qed
qed

lemma sweep_inv_start:
  assumes sh: "shaped X Y M0" and X: "Suc 0 < X" and Y: "Suc 0 < Y"
    and fresh: "\<And>qx qy. qx < X \<Longrightarrow> qy < Y \<Longrightarrow>
        relax_weight (cell M0 qx qy) = Inf \<and> relax_parent (cell M0 qx qy) = Point 0 0
        \<and> weight (cell M0 qx qy) = W qx qy"
  shows "\<exists>M1. init_roots M0 = Inr M1 \<and> sweep_inv X Y W 0 0 M1"
proof -
  from init_roots_spec [OF sh X Y] obtain M1 where
    r: "init_roots M0 = Inr M1" and sh1: "shaped X Y M1" and
    c: "\<And>qx qy. qx < X \<Longrightarrow> qy < Y \<Longrightarrow> cell M1 qx qy =
              (if \<not> (even qx \<and> even qy) \<and> qx \<le> 1 \<and> qy \<le> 1
               then (cell M0 qx qy)\<lparr>relax_weight := Fin 0\<rparr> else cell M0 qx qy)"
    by blast
  have "sweep_inv X Y W 0 0 M1"
    unfolding sweep_inv_def using sh1 fresh by (auto simp: c)
  with r show ?thesis by blast
qed

lemma swept_ok:
  assumes "lines_b \<noteq> []" "lines_a \<noteq> []"
  shows "\<exists>M. swept ndiff lines_b lines_a = Inr M \<and>
           sweep_inv (length lines_b * 2 + 1) (length lines_a * 2 + 1)
             (weight_of lines_b lines_a) (length lines_b * 2 + 1) 0 M"
proof -
  let ?X = "length lines_b * 2 + 1" and ?Y = "length lines_a * 2 + 1"
  have X: "Suc 0 < ?X" and Y: "Suc 0 < ?Y" using assms by simp_all
  have "\<exists>M1. init_roots (fresh_matrix lines_b lines_a) = Inr M1 \<and>
          sweep_inv ?X ?Y (weight_of lines_b lines_a) 0 0 M1"
    by (rule sweep_inv_start [OF shaped_fresh X Y]) (simp add: cell_fresh AlignmentNode_init_def)
  then obtain M1 where M1: "init_roots (fresh_matrix lines_b lines_a) = Inr M1"
    "sweep_inv ?X ?Y (weight_of lines_b lines_a) 0 0 M1" by blast
  from sweep_inv_sweep [OF M1(2)] obtain M where
    "sweep M1 = Inr M" "sweep_inv ?X ?Y (weight_of lines_b lines_a) ?X 0 M" by auto
  with M1(1) show ?thesis by (simp add: swept_def AlignmentMatrix_init_eq)
qed

lemma leads_append:
  "leads s (ps @ qs) t \<longleftrightarrow> (\<exists>u. leads s ps u \<and> leads u qs t)"
  by (induction ps arbitrary: s) auto

lemma leads_mono: "leads (i, j) ps (m, n) \<Longrightarrow> i \<le> m \<and> j \<le> n"
proof (induction ps arbitrary: i j)
  case Nil
  then show ?case by simp
next
  case (Cons p ps)
  then have "(pt_x p + 1) div 2 \<le> m \<and> (pt_y p + 1) div 2 \<le> n" "i = pt_x p div 2" "j = pt_y p div 2"
    by auto
  then show ?case by (metis div_le_mono le_add1 le_trans)
qed

lemma walk_loop_origin:
  assumes "shaped X Y M" "0 < X" "0 < Y"
  shows "walk_loop M (cell M 0 0) path = Some (Inr path)"
proof -
  have "node_id (cell M 0 0) = Point 0 0" using assms by (simp add: shaped_def)
  then show ?thesis by (subst walk_loop.simps) simp
qed

lemma walk_loop_settled:
  assumes st: "settled X Y M"
  shows "qx < X \<Longrightarrow> qy < Y \<Longrightarrow> \<not> (even qx \<and> even qy) \<Longrightarrow>
         \<exists>ps. walk_loop M (cell M qx qy) acc = Some (Inr (acc @ Point qx qy # ps)) \<and>
              parent_chain M (Point qx qy # ps) \<and>
              leads (0, 0) (rev (Point qx qy # ps)) ((qx + 1) div 2, (qy + 1) div 2)"
proof (induction "qx + qy" arbitrary: qx qy acc rule: less_induct)
  case less
  have sh: "shaped X Y M" using st by (simp add: settled_def)
  have id: "node_id (cell M qx qy) = Point qx qy"
    using sh less.prems by (simp add: shaped_def)
  have pos: "0 < qx \<or> 0 < qy" using less.prems(3) by (cases "qx = 0"; cases "qy = 0") auto
  have unfold: "walk_loop M (cell M qx qy) acc =
      (case node_at M (relax_parent (cell M qx qy)) of
         Inl e \<Rightarrow> Some (Inl e)
       | Inr nxt \<Rightarrow> walk_loop M nxt (acc @ [Point qx qy]))"
    using pos less.prems
    by (subst walk_loop.simps) (simp add: id node_at_shaped [OF sh] cong: sum.case_cong)
  show ?case
  proof (cases "qx \<le> 1 \<and> qy \<le> 1")
    case True
    then have par: "relax_parent (cell M qx qy) = Point 0 0"
      using st less.prems unfolding settled_def by auto
    have X0: "0 < X" "0 < Y" using less.prems by auto
    have "walk_loop M (cell M qx qy) acc = Some (Inr (acc @ [Point qx qy]))"
      using X0 by (simp add: unfold par node_at_shaped [OF sh] walk_loop_origin [OF sh])
    moreover have "leads (0, 0) (rev [Point qx qy]) ((qx + 1) div 2, (qy + 1) div 2)"
      using True less.prems(3) by auto
    moreover have "parent_chain M [Point qx qy]" using par by simp
    ultimately show ?thesis by blast
  next
    case False
    then have lk: "linked X Y M qx qy"
      using st less.prems unfolding settled_def by auto
    obtain px py where par: "relax_parent (cell M qx qy) = Point px py"
      by (cases "relax_parent (cell M qx qy)") auto
    from lk par have p: "px < X" "py < Y" "feeds px py qx qy"
      by (simp_all add: linked_def)
    from p(3) have dec: "px + py < qx + qy" and np: "\<not> (even px \<and> even py)"
      and st_eq: "((px + 1) div 2, (py + 1) div 2) = (qx div 2, qy div 2)"
      using feeds_decreases by (auto simp: feeds_def)
    from less.hyps [OF dec p(1,2) np, of "acc @ [Point qx qy]"] obtain ps where
      ps: "walk_loop M (cell M px py) (acc @ [Point qx qy])
             = Some (Inr ((acc @ [Point qx qy]) @ Point px py # ps))"
        "parent_chain M (Point px py # ps)"
        "leads (0, 0) (rev (Point px py # ps)) ((px + 1) div 2, (py + 1) div 2)"
      by blast
    have "walk_loop M (cell M qx qy) acc = Some (Inr (acc @ Point qx qy # Point px py # ps))"
      using p ps(1) by (simp add: unfold par node_at_shaped [OF sh])
    moreover have "leads (0, 0) (rev (Point qx qy # Point px py # ps)) ((qx + 1) div 2, (qy + 1) div 2)"
      using ps(3) less.prems(3) st_eq by (auto simp: leads_append)
    moreover have "parent_chain M (Point qx qy # Point px py # ps)"
      using ps(2) par by simp
    ultimately show ?thesis by blast
  qed
qed

lemma walk_path_settled:
  assumes "settled X Y M" "qx < X" "qy < Y" "\<not> (even qx \<and> even qy)"
  shows "\<exists>ps. walk_loop M (cell M qx qy) [] = Some (Inr (Point qx qy # ps)) \<and>
              walk_path M (cell M qx qy) = Some (Inr (rev (Point qx qy # ps))) \<and>
              parent_chain M (Point qx qy # ps) \<and>
              leads (0, 0) (rev (Point qx qy # ps)) ((qx + 1) div 2, (qy + 1) div 2)"
proof -
  from walk_loop_settled [OF assms, of "[]"] obtain ps where
    ps: "walk_loop M (cell M qx qy) [] = Some (Inr (Point qx qy # ps))"
      "parent_chain M (Point qx qy # ps)"
      "leads (0, 0) (rev (Point qx qy # ps)) ((qx + 1) div 2, (qy + 1) div 2)" by auto
  then show ?thesis by (simp add: walk_path_def)
qed

lemma py_get_minus:
  "k \<le> length xs \<Longrightarrow> 0 < k \<Longrightarrow> py_get xs (int (length xs) - int k) = Inr (xs ! (length xs - k))"
  by (simp add: py_get_def nat_diff_distrib' flip: of_nat_diff)

lemma select_exit_shaped:
  assumes sh: "shaped X Y M" and X: "2 \<le> X" and Y: "2 \<le> Y"
  shows "select_exit M =
     Inr (if pynum_less (relax_weight (cell M (X - 2) (Y - 1))) (relax_weight (cell M (X - 1) (Y - 2)))
            \<and> pynum_less (relax_weight (cell M (X - 2) (Y - 1))) (relax_weight (cell M (X - 2) (Y - 2)))
          then cell M (X - 2) (Y - 1)
          else if pynum_less (relax_weight (cell M (X - 1) (Y - 2))) (relax_weight (cell M (X - 2) (Y - 2)))
          then cell M (X - 1) (Y - 2)
          else cell M (X - 2) (Y - 2))"
proof -
  have len: "line_matrix_x_len M = length (line_matrix M)" "length (line_matrix M) = X"
    "line_matrix_y_len M = Y"
    using sh by (simp_all add: shaped_def)
  have rows: "length (line_matrix M ! (X - 2)) = Y" "length (line_matrix M ! (X - Suc 0)) = Y"
    using sh X by (simp_all add: shaped_def)
  have r2: "py_get (line_matrix M) (int X - 2) = Inr (line_matrix M ! (X - 2))"
    using py_get_minus [of 2 "line_matrix M"] X len by simp
  have r1: "py_get (line_matrix M) (int X - 1) = Inr (line_matrix M ! (X - 1))"
    using py_get_minus [of 1 "line_matrix M"] X len by simp
  have c2: "py_get row (int Y - 2) = Inr (row ! (Y - 2))"
    and c1: "py_get row (int Y - 1) = Inr (row ! (Y - 1))" if "length row = Y" for row :: "AlignmentNode list"
    using py_get_minus [of 2 row] py_get_minus [of 1 row] Y that by simp_all
  show ?thesis
    unfolding select_exit_def len(1) len(2) len(3)
    by (simp add: r1 r2 c1 [OF rows(1)] c2 [OF rows(1)] c2 [OF rows(2)] cell_def)
qed

lemma leads_in_range:
  "leads s ps (m, n) \<Longrightarrow> p \<in> set ps \<Longrightarrow> fst (consumed p) \<le> m \<and> snd (consumed p) \<le> n"
proof (induction ps arbitrary: s)
  case Nil
  then show ?case by simp
next
  case (Cons q ps)
  show ?case
  proof (cases "p = q")
    case True
    from Cons.prems(1) have "leads ((pt_x q + 1) div 2, (pt_y q + 1) div 2) ps (m, n)" by simp
    from leads_mono [OF this] True show ?thesis by (simp add: consumed_def)
  next
    case False
    with Cons show ?thesis by auto
  qed
qed

lemma leads_indices:
  "leads (i, j) ps (m, n) \<Longrightarrow>
     [pt_x p div 2. p \<leftarrow> ps, odd (pt_x p)] = [i..<m] \<and>
     [pt_y p div 2. p \<leftarrow> ps, odd (pt_y p)] = [j..<n]"
proof (induction ps arbitrary: i j)
  case Nil
  then show ?case by simp
next
  case (Cons p ps)
  let ?i' = "(pt_x p + 1) div 2" and ?j' = "(pt_y p + 1) div 2"
  from Cons.prems have ij: "i = pt_x p div 2" "j = pt_y p div 2"
    and rest: "leads (?i', ?j') ps (m, n)" by auto
  from leads_mono [OF rest] have le: "?i' \<le> m" "?j' \<le> n" by auto
  from Cons.IH [OF rest] have IH:
    "[pt_x p div 2. p \<leftarrow> ps, odd (pt_x p)] = [?i'..<m]"
    "[pt_y p div 2. p \<leftarrow> ps, odd (pt_y p)] = [?j'..<n]" by auto
  have x: "[pt_x p div 2. p \<leftarrow> p # ps, odd (pt_x p)] = [i..<m]"
  proof (cases "odd (pt_x p)")
    case True
    then have "?i' = Suc i" using ij by (auto elim!: oddE)
    with le IH True ij show ?thesis by (simp add: upt_conv_Cons)
  next
    case False
    then have "?i' = i" using ij by (auto elim!: evenE)
    with IH False show ?thesis by simp
  qed
  have y: "[pt_y p div 2. p \<leftarrow> p # ps, odd (pt_y p)] = [j..<n]"
  proof (cases "odd (pt_y p)")
    case True
    then have "?j' = Suc j" using ij by (auto elim!: oddE)
    with le IH True ij show ?thesis by (simp add: upt_conv_Cons)
  next
    case False
    then have "?j' = j" using ij by (auto elim!: evenE)
    with IH False show ?thesis by simp
  qed
  from x y show ?case by blast
qed

lemma leads_increasing:
  "leads (i, j) ps t \<Longrightarrow> p \<in> set ps \<Longrightarrow> i + j < fst (consumed p) + snd (consumed p)"
proof (induction ps arbitrary: i j)
  case Nil
  then show ?case by simp
next
  case (Cons q ps)
  let ?i' = "(pt_x q + 1) div 2" and ?j' = "(pt_y q + 1) div 2"
  from Cons.prems have ij: "i = pt_x q div 2" "j = pt_y q div 2"
    and np: "\<not> (even (pt_x q) \<and> even (pt_y q))"
    and rest: "leads (?i', ?j') ps t" by auto
  have step: "i + j < ?i' + ?j'"
    using ij np by (cases "even (pt_x q)"; cases "even (pt_y q)") (auto elim!: evenE oddE)
  show ?case
  proof (cases "p = q")
    case True
    with step show ?thesis by (simp add: consumed_def)
  next
    case False
    with Cons.prems have "p \<in> set ps" by simp
    from Cons.IH [OF rest this] step show ?thesis by simp
  qed
qed

lemma leads_distinct: "leads s ps t \<Longrightarrow> distinct (map consumed ps)"
proof (induction ps arbitrary: s)
  case Nil
  then show ?case by simp
next
  case (Cons q ps)
  let ?i' = "(pt_x q + 1) div 2" and ?j' = "(pt_y q + 1) div 2"
  from Cons.prems have rest: "leads (?i', ?j') ps t" by simp
  have "consumed q \<notin> consumed ` set ps"
  proof
    assume "consumed q \<in> consumed ` set ps"
    then obtain p where p: "p \<in> set ps" "consumed p = consumed q" by auto
    from leads_increasing [OF rest p(1)] p(2) show False by (simp add: consumed_def)
  qed
  with Cons.IH [OF rest] show ?case by simp
qed

lemma leads_origin_free: "leads (i, j) ps t \<Longrightarrow> (0, 0) \<notin> set (map consumed ps)"
proof
  assume l: "leads (i, j) ps t" and "(0, 0) \<in> set (map consumed ps)"
  then obtain p where "p \<in> set ps" "consumed p = (0, 0)" by auto
  with leads_increasing [OF l] show False by fastforce
qed

lemma shortest_path_swept:
  assumes "swept ndiff lines_b lines_a = Inr M"
  shows "shortest_path (fresh_matrix lines_b lines_a) =
           (case select_exit M of Inl e \<Rightarrow> Some (Inl e) | Inr exit_node \<Rightarrow> walk_path M exit_node)"
  using assms
  by (cases "init_roots (fresh_matrix lines_b lines_a)")
     (simp_all add: swept_def AlignmentMatrix_init_eq shortest_path_def)

lemma pair_of_pure:
  assumes "odd (pt_x p) \<Longrightarrow> pt_x p div 2 < length lines_b"
    and "odd (pt_y p) \<Longrightarrow> pt_y p div 2 < length lines_a"
  shows "pair_of lines_b lines_a p = Inr (pure_pair lines_b lines_a p)"
  using assms
  by (simp add: pair_of_def pure_pair_def py_get_nat odd_iff_mod_2_eq_one)

lemma collect_pair_of:
  assumes "leads (0, 0) path (length lines_b, length lines_a)"
  shows "collect (pair_of lines_b lines_a) path = Inr (map (pure_pair lines_b lines_a) path)"
proof (rule collect_map)
  fix p assume "p \<in> set path"
  from leads_in_range [OF assms this]
  have r: "(pt_x p + 1) div 2 \<le> length lines_b" "(pt_y p + 1) div 2 \<le> length lines_a"
    by (simp_all add: consumed_def)
  have "pt_x p div 2 < length lines_b" if "odd (pt_x p)"
    using that r(1) by (auto elim!: oddE)
  moreover have "pt_y p div 2 < length lines_a" if "odd (pt_y p)"
    using that r(2) by (auto elim!: oddE)
  ultimately show "pair_of lines_b lines_a p = Inr (pure_pair lines_b lines_a p)"
    by (rule pair_of_pure)
qed

lemma map_filter_fst_pure:
  "List.map_filter fst (map (pure_pair lines_b lines_a) path)
     = map ((!) lines_b) [pt_x p div 2. p \<leftarrow> path, odd (pt_x p)]"
  by (induction path) (simp_all add: List.map_filter_simps pure_pair_def)

lemma map_filter_snd_pure:
  "List.map_filter snd (map (pure_pair lines_b lines_a) path)
     = map ((!) lines_a) [pt_y p div 2. p \<leftarrow> path, odd (pt_y p)]"
  by (induction path) (simp_all add: List.map_filter_simps pure_pair_def)

lemma align_run:
  assumes b: "lines_b \<noteq> []" and a: "lines_a \<noteq> []"
  shows "\<exists>M ex ey ps.
     swept ndiff lines_b lines_a = Inr M \<and>
     settled (length lines_b * 2 + 1) (length lines_a * 2 + 1) M \<and>
     (\<forall>qx<length lines_b * 2 + 1. \<forall>qy<length lines_a * 2 + 1.
        weight (cell M qx qy) = weight_of lines_b lines_a qx qy) \<and>
     select_exit M = Inr (cell M ex ey) \<and> node_id (cell M ex ey) = Point ex ey \<and>
     ex < length lines_b * 2 + 1 \<and> ey < length lines_a * 2 + 1 \<and>
     walk_loop M (cell M ex ey) [] = Some (Inr (Point ex ey # ps)) \<and>
     parent_chain M (Point ex ey # ps) \<and>
     leads (0, 0) (rev (Point ex ey # ps)) (length lines_b, length lines_a) \<and>
     shortest_path (fresh_matrix lines_b lines_a) = Some (Inr (rev (Point ex ey # ps))) \<and>
     align ndiff lines_b lines_a
       = Some (Inr (map (pure_pair lines_b lines_a) (rev (Point ex ey # ps))))"
proof -
  let ?X = "length lines_b * 2 + 1" and ?Y = "length lines_a * 2 + 1"
  from swept_ok [OF b a] obtain M where
    M: "swept ndiff lines_b lines_a = Inr M"
    and inv: "sweep_inv ?X ?Y (weight_of lines_b lines_a) ?X 0 M" by blast
  have st: "settled ?X ?Y M" by (rule sweep_inv_settled [OF inv])
  have sh: "shaped ?X ?Y M" using inv by (simp add: sweep_inv_def)
  have w: "\<forall>qx<?X. \<forall>qy<?Y. weight (cell M qx qy) = weight_of lines_b lines_a qx qy"
    using inv by (simp add: sweep_inv_def)
  obtain m n where mn: "length lines_b = Suc m" "length lines_a = Suc n"
    using a b by (metis length_Suc_conv list.exhaust)
  have X: "2 \<le> ?X" and Y: "2 \<le> ?Y" by (simp_all add: mn)
  define chosen where "chosen =
     (if pynum_less (relax_weight (cell M (?X - 2) (?Y - 1))) (relax_weight (cell M (?X - 1) (?Y - 2)))
            \<and> pynum_less (relax_weight (cell M (?X - 2) (?Y - 1))) (relax_weight (cell M (?X - 2) (?Y - 2)))
      then (?X - 2, ?Y - 1)
      else if pynum_less (relax_weight (cell M (?X - 1) (?Y - 2))) (relax_weight (cell M (?X - 2) (?Y - 2)))
      then (?X - 1, ?Y - 2)
      else (?X - 2, ?Y - 2))"
  define ex ey where "ex = fst chosen" and "ey = snd chosen"
  have e: "select_exit M = Inr (cell M ex ey)"
    unfolding select_exit_shaped [OF sh X Y] ex_def ey_def chosen_def by simp
  have ex: "(ex, ey) = (2 * m + 1, 2 * n + 2) \<or> (ex, ey) = (2 * m + 2, 2 * n + 1)
      \<or> (ex, ey) = (2 * m + 1, 2 * n + 1)"
    unfolding ex_def ey_def chosen_def by (simp add: mn)
  from ex have rng: "ex < ?X" "ey < ?Y" by (auto simp: mn)
  from ex have np: "\<not> (even ex \<and> even ey)" by auto
  from ex have land: "((ex + 1) div 2, (ey + 1) div 2) = (length lines_b, length lines_a)"
    by (auto simp: mn)
  have id: "node_id (cell M ex ey) = Point ex ey" using sh rng by (simp add: shaped_def)
  from walk_path_settled [OF st rng np] obtain ps where
    ps: "walk_loop M (cell M ex ey) [] = Some (Inr (Point ex ey # ps))"
      "walk_path M (cell M ex ey) = Some (Inr (rev (Point ex ey # ps)))"
      "parent_chain M (Point ex ey # ps)"
      "leads (0, 0) (rev (Point ex ey # ps)) ((ex + 1) div 2, (ey + 1) div 2)"
    by blast
  have sp: "shortest_path (fresh_matrix lines_b lines_a) = Some (Inr (rev (Point ex ey # ps)))"
    by (simp add: shortest_path_swept [OF M] e ps(2))
  have ld: "leads (0, 0) (rev (Point ex ey # ps)) (length lines_b, length lines_a)"
    using ps(4) land by simp
  have "align ndiff lines_b lines_a
       = Some (Inr (map (pure_pair lines_b lines_a) (rev (Point ex ey # ps))))"
    using collect_pair_of [OF ld] by (simp add: align_def AlignmentMatrix_init_eq sp)
  with M st w e id rng ps(1,3) ld sp show ?thesis by blast
qed

lemmas run_defs = align_def AlignmentMatrix_init_eq fresh_matrix_def weight_of_def
  AlignmentNode_init_def shortest_path_def init_roots_def root_adjacency_def node_at_def
  py_get_def ebind_def store_at_def sweep_def visit_def adjacency_def relax_def
  select_exit_def walk_path_def walk_loop.simps pair_of_def Let_def upt_rec or_mod_2

lemma align_single_lines: "align ndiff [x] [y] = Some (Inr [(Some x, Some y)])"
  by (simp add: run_defs)

lemma swept_empty_lines:
  "swept ndiff [[]] [[]] = Inr
     \<lparr>line_matrix_x_len = 3, line_matrix_y_len = 3,
      line_matrix =
       [[\<lparr>node_id = Point 0 0, weight = - 1, relax_weight = Inf, relax_parent = Point 0 0\<rparr>,
         \<lparr>node_id = Point 0 1, weight = 0, relax_weight = Fin 0, relax_parent = Point 0 0\<rparr>,
         \<lparr>node_id = Point 0 2, weight = - 1, relax_weight = Inf, relax_parent = Point 0 0\<rparr>],
        [\<lparr>node_id = Point 1 0, weight = 0, relax_weight = Fin 0, relax_parent = Point 0 0\<rparr>,
         \<lparr>node_id = Point 1 1, weight = 0, relax_weight = Fin 0, relax_parent = Point 0 0\<rparr>,
         \<lparr>node_id = Point 1 2, weight = 0, relax_weight = Fin 0, relax_parent = Point 0 1\<rparr>],
        [\<lparr>node_id = Point 2 0, weight = - 1, relax_weight = Inf, relax_parent = Point 0 0\<rparr>,
         \<lparr>node_id = Point 2 1, weight = 0, relax_weight = Fin 0, relax_parent = Point 1 0\<rparr>,
         \<lparr>node_id = Point 2 2, weight = - 1, relax_weight = Inf, relax_parent = Point 0 0\<rparr>]]\<rparr>"
  by (simp add: swept_def run_defs)

















lemma relax_onto_Fin:
  "relax_weight c = Fin u \<Longrightarrow>
   relax c p (Fin v) =
     (if v + weight c < u then c\<lparr>relax_weight := Fin (v + weight c), relax_parent := p\<rparr> else c)"
  by (simp add: relax_def Let_def)




























section \<open>The claims\<close>

text \<open>
  C1, as stated, fails: with exactly one side empty \<^verbatim>\<open>align\<close> does not return the lines
  of the other side paired with absence. The input is the claim's own
  \<^verbatim>\<open>align([], ["x"])\<close>.
\<close>

theorem align_insert_only_counterexample:
  "\<forall>ndiff. align ndiff [] [''x''] \<noteq> Some (Inr [(None, Some ''x'')])"
  by (simp add: align_one_side_empty_aux)

text \<open>
  C1, amended. For every input where exactly one of the two line sequences is empty,
  \<^verbatim>\<open>align\<close> raises \<^verbatim>\<open>IndexError\<close> while it initialises the root nodes and returns no
  pairing: \<^verbatim>\<open>root_adjacency\<close> names the nodes \<open>(0, 1)\<close>, \<open>(1, 0)\<close> and \<open>(1, 1)\<close>
  whatever the size of the matrix.
\<close>

theorem align_one_side_empty:
  "(lines_b = []) \<noteq> (lines_a = []) \<Longrightarrow> align ndiff lines_b lines_a = Some (Inl IndexError)"
  by (rule align_one_side_empty_aux) auto

text \<open>
  A witness of C1 as amended, at \<^verbatim>\<open>align([], ["x"])\<close> and \<^verbatim>\<open>align(["x"], [])\<close>.
\<close>

theorem align_one_side_empty_witness:
  "\<forall>ndiff. (([]::string list) = []) \<noteq> ([''x''] = []) \<and> ([''x''] = []) \<noteq> (([]::string list) = [])
     \<and> align ndiff [] [''x''] = Some (Inl IndexError)
     \<and> align ndiff [''x''] [] = Some (Inl IndexError)"
  using align_one_side_empty [of "[]" "[''x'']"] align_one_side_empty [of "[''x'']" "[]"]
  by simp

text \<open>
  C2. The claim is that the substitution cost of two lines is \<open>D\<close> times the ceiling of
  \<open>K / 2\<close>. The source counts \<open>K\<close> by a second iteration over the generator that the count
  of \<open>D\<close> has already exhausted, so its \<open>K\<close> is 0 and the weight is 0 for every pair of
  lines. For the lines \<^verbatim>\<open>"a"\<close> and \<^verbatim>\<open>"b"\<close>, whose character diff is \<^verbatim>\<open>"- a"\<close>, \<^verbatim>\<open>"+ b"\<close>,
  the claimed cost is 2 and the computed weight is 0.
\<close>

theorem substitution_weight_loses_operations:
  "substitution_weight (\<lambda>line_b line_a. [(CHR ''-'', '' a''), (CHR ''+'', '' b'')]) ''a'' ''b'' = 0
   \<and> spec_substitution_cost [(CHR ''-'', '' a''), (CHR ''+'', '' b'')] = 2"
  by (simp add: substitution_weight_zero spec_substitution_cost_def)

text \<open>
  C3, as stated, fails for a valid input with one empty side: \<^verbatim>\<open>align(["x"], [])\<close>
  returns no output, so index 0 of \<^verbatim>\<open>before\<close> appears in no output pair.
\<close>

theorem align_delete_only_counterexample:
  "\<forall>ndiff. \<not> (\<exists>out. align ndiff [''x''] [] = Some (Inr out) \<and> List.map_filter fst out = [''x''])"
  by (simp add: align_one_side_empty_aux)

text \<open>
  C3, amended. For every input with at least one line on each side, \<^verbatim>\<open>align\<close> returns
  the pairs of the points of the path that \<^verbatim>\<open>shortest_path\<close> returns; the indices of
  \<^verbatim>\<open>before\<close> that the path's points carry are, in path order, exactly
  \<open>0, \<dots>, m - 1\<close>, each once, and those of \<^verbatim>\<open>after\<close> exactly \<open>0, \<dots>, n - 1\<close>; every point
  of the path has a side present, so no output pair has both sides absent, and the
  present \<^verbatim>\<open>before\<close> sides of the output are the \<^verbatim>\<open>before\<close> lines in order, likewise for
  \<^verbatim>\<open>after\<close>.
\<close>

theorem align_covers_every_line:
  assumes "lines_b \<noteq> []" and "lines_a \<noteq> []"
  shows "\<exists>matrix path out.
     AlignmentMatrix_init ndiff lines_b lines_a = Inr matrix \<and>
     shortest_path matrix = Some (Inr path) \<and>
     align ndiff lines_b lines_a = Some (Inr out) \<and>
     out = map (pure_pair lines_b lines_a) path \<and>
     [pt_x p div 2. p \<leftarrow> path, odd (pt_x p)] = [0..<length lines_b] \<and>
     [pt_y p div 2. p \<leftarrow> path, odd (pt_y p)] = [0..<length lines_a] \<and>
     (\<forall>p \<in> set path. odd (pt_x p) \<or> odd (pt_y p)) \<and>
     (None, None) \<notin> set out \<and>
     List.map_filter fst out = lines_b \<and> List.map_filter snd out = lines_a"
proof -
  from align_run [OF assms, of ndiff] obtain path where
    sp: "shortest_path (fresh_matrix lines_b lines_a) = Some (Inr path)"
    and al: "align ndiff lines_b lines_a = Some (Inr (map (pure_pair lines_b lines_a) path))"
    and ld: "leads (0, 0) path (length lines_b, length lines_a)"
    by blast
  note idx = leads_indices [OF ld]
  have np: "odd (pt_x p) \<or> odd (pt_y p)" if "p \<in> set path" for p
  proof -
    from that obtain ps qs where "path = ps @ p # qs" by (meson split_list)
    with ld show ?thesis by (auto simp: leads_append)
  qed
  then have "(None, None) \<notin> set (map (pure_pair lines_b lines_a) path)"
    by (fastforce simp: pure_pair_def split: if_splits)
  moreover have "List.map_filter fst (map (pure_pair lines_b lines_a) path) = lines_b"
    unfolding map_filter_fst_pure using idx by (simp add: map_nth)
  moreover have "List.map_filter snd (map (pure_pair lines_b lines_a) path) = lines_a"
    unfolding map_filter_snd_pure using idx by (simp add: map_nth)
  ultimately show ?thesis
    using sp al idx np by (simp add: AlignmentMatrix_init_eq)
qed

text \<open>
  A witness of C3 as amended, at \<^verbatim>\<open>align(["x", "y"], ["z"])\<close>.
\<close>

theorem align_covers_every_line_witness:
  "\<forall>ndiff. \<exists>out. align ndiff [''x'', ''y''] [''z''] = Some (Inr out) \<and>
      (None, None) \<notin> set out \<and>
      List.map_filter fst out = [''x'', ''y''] \<and> List.map_filter snd out = [''z'']"
proof
  fix ndiff
  have "[''x'', ''y''] \<noteq> []" "[''z''] \<noteq> []" by simp_all
  from align_covers_every_line [OF this, of ndiff] show
    "\<exists>out. align ndiff [''x'', ''y''] [''z''] = Some (Inr out) \<and>
      (None, None) \<notin> set out \<and>
      List.map_filter fst out = [''x'', ''y''] \<and> List.map_filter snd out = [''z'']"
    by blast
qed

text \<open>
  C4. The claim is that the chosen path never costs more than the unaligned baseline,
  with a both-present pair priced at the substitution cost \<open>D\<close> times the ceiling of
  \<open>K / 2\<close>. For \<^verbatim>\<open>align(["abc"], ["xyz"])\<close>, whose character diff is three deletions and
  three insertions, the source returns the single pair of the two lines: its cost is
  6 times 3, that is 18, and the baseline is 3 plus 3, that is 6.
\<close>

theorem chosen_path_costs_more_than_unaligned:
  "(let ndiff = (\<lambda>line_b line_a.
        [(CHR ''-'', '' a''), (CHR ''-'', '' b''), (CHR ''-'', '' c''),
         (CHR ''+'', '' x''), (CHR ''+'', '' y''), (CHR ''+'', '' z'')])
    in align ndiff [''abc''] [''xyz''] = Some (Inr [(Some ''abc'', Some ''xyz'')])
       \<and> sum_list (map (pair_cost ndiff) [(Some ''abc'', Some ''xyz'')]) = 18
       \<and> unaligned_cost [''abc''] [''xyz''] = 6)"
  by (simp add: align_single_lines pair_cost_def spec_substitution_cost_def unaligned_cost_def)

text \<open>
  C5. The claim is that the nodes reachable from the origin start with their own weight
  as relaxed distance. The source sets the relaxed distance of each of them to 0: for
  \<^verbatim>\<open>align(["ab"], ["c"])\<close> the delete node at \<open>(1, 0)\<close> has weight 2 and relaxed
  distance 0 after the initialisation.
\<close>

theorem init_roots_distance_is_zero:
  "\<forall>ndiff. ebind (AlignmentMatrix_init ndiff [''ab''] [''c'']) (\<lambda>matrix.
             ebind (init_roots matrix) (\<lambda>rooted. node_at rooted (Point 1 0)))
     = Inr \<lparr>node_id = Point 1 0, weight = 2, relax_weight = Fin 0, relax_parent = Point 0 0\<rparr>"
  by (simp add: AlignmentMatrix_init_def init_roots_def root_adjacency_def node_at_def
      py_get_def init_weight_def AlignmentNode_init_def store_at_def Let_def upt_rec)

text \<open>
  C6. For an input with at least one line on each side, the exit node is chosen among
  delete-last \<open>(2m - 1, 2n)\<close>, insert-last \<open>(2m, 2n - 1)\<close> and substitute-last
  \<open>(2m - 1, 2n - 1)\<close> of the swept matrix: delete-last if its relaxed distance is strictly
  less than both others, else insert-last if its relaxed distance is strictly less than
  that of substitute-last, else substitute-last; \<^verbatim>\<open>shortest_path\<close> walks back from that
  node. For one line on each side the output is the pair of the two lines, whatever
  their costs.
\<close>

theorem exit_tie_break:
  "(lines_b \<noteq> [] \<longrightarrow> lines_a \<noteq> [] \<longrightarrow>
     (\<exists>matrix swept_matrix.
        AlignmentMatrix_init ndiff lines_b lines_a = Inr matrix \<and>
        swept ndiff lines_b lines_a = Inr swept_matrix \<and>
        (let delete_last = cell swept_matrix (2 * length lines_b - 1) (2 * length lines_a);
             insert_last = cell swept_matrix (2 * length lines_b) (2 * length lines_a - 1);
             substitute_last = cell swept_matrix (2 * length lines_b - 1) (2 * length lines_a - 1);
             chosen =
               (if pynum_less (relax_weight delete_last) (relax_weight insert_last)
                   \<and> pynum_less (relax_weight delete_last) (relax_weight substitute_last)
                then delete_last
                else if pynum_less (relax_weight insert_last) (relax_weight substitute_last)
                then insert_last
                else substitute_last)
         in select_exit swept_matrix = Inr chosen \<and>
            shortest_path matrix = walk_path swept_matrix chosen)))
   \<and> align ndiff [x] [y] = Some (Inr [(Some x, Some y)])"
proof (intro conjI impI)
  assume b: "lines_b \<noteq> []" and a: "lines_a \<noteq> []"
  let ?X = "length lines_b * 2 + 1" and ?Y = "length lines_a * 2 + 1"
  from swept_ok [OF b a] obtain M where
    M: "swept ndiff lines_b lines_a = Inr M"
    and inv: "sweep_inv ?X ?Y (weight_of lines_b lines_a) ?X 0 M" by blast
  have sh: "shaped ?X ?Y M" using inv by (simp add: sweep_inv_def)
  have X: "2 \<le> ?X" and Y: "2 \<le> ?Y" using a b by (simp_all add: Suc_le_eq)
  have ix: "?X - 2 = 2 * length lines_b - 1" "?X - 1 = 2 * length lines_b"
    and iy: "?Y - 2 = 2 * length lines_a - 1" "?Y - 1 = 2 * length lines_a"
    by simp_all
  note sel = select_exit_shaped [OF sh X Y, unfolded ix iy]
  show "\<exists>matrix swept_matrix.
        AlignmentMatrix_init ndiff lines_b lines_a = Inr matrix \<and>
        swept ndiff lines_b lines_a = Inr swept_matrix \<and>
        (let delete_last = cell swept_matrix (2 * length lines_b - 1) (2 * length lines_a);
             insert_last = cell swept_matrix (2 * length lines_b) (2 * length lines_a - 1);
             substitute_last = cell swept_matrix (2 * length lines_b - 1) (2 * length lines_a - 1);
             chosen =
               (if pynum_less (relax_weight delete_last) (relax_weight insert_last)
                   \<and> pynum_less (relax_weight delete_last) (relax_weight substitute_last)
                then delete_last
                else if pynum_less (relax_weight insert_last) (relax_weight substitute_last)
                then insert_last
                else substitute_last)
         in select_exit swept_matrix = Inr chosen \<and>
            shortest_path matrix = walk_path swept_matrix chosen)"
    unfolding Let_def
    by (intro exI [of _ "fresh_matrix lines_b lines_a"] exI [of _ M] conjI
        AlignmentMatrix_init_eq M sel) (simp add: shortest_path_swept [OF M] sel)
next
  show "align ndiff [x] [y] = Some (Inr [(Some x, Some y)])"
    by (rule align_single_lines)
qed

text \<open>
  A witness of C6 at \<^verbatim>\<open>align([""], [""])\<close>, where the three relaxed distances tie at 0
  (the substitution weight equals the sum of both gap costs) and substitute-last is
  chosen.
\<close>

theorem exit_tie_break_witness:
  "\<forall>ndiff. \<exists>swept_matrix.
      swept ndiff [[]] [[]] = Inr swept_matrix \<and>
      relax_weight (cell swept_matrix 1 2) = Fin 0 \<and>
      relax_weight (cell swept_matrix 2 1) = Fin 0 \<and>
      relax_weight (cell swept_matrix 1 1) = Fin 0 \<and>
      select_exit swept_matrix = Inr (cell swept_matrix 1 1) \<and>
      align ndiff [[]] [[]] = Some (Inr [(Some [], Some [])])"
  using exit_tie_break [of "[[]]" "[[]]" _ "[]" "[]"]
  by (auto simp add: swept_empty_lines cell_def Let_def)

text \<open>
  C7. \<^verbatim>\<open>align(["foo", "bar"], ["foo", "baz"])\<close> returns
  \<^verbatim>\<open>[("foo", "foo"), ("bar", "baz")]\<close>.
\<close>

theorem align_foo_bar:
  "align ndiff [''foo'', ''bar''] [''foo'', ''baz'']
     = Some (Inr [(Some ''foo'', Some ''foo''), (Some ''bar'', Some ''baz'')])"
  by (simp add: run_defs)


text \<open>
  C9. Called with both sequences empty, \<^verbatim>\<open>align\<close> fails with an error signalled to the
  caller (the \<^verbatim>\<open>IndexError\<close> of the first root node, which does not exist) and returns
  no pairing.
\<close>

theorem align_both_empty_fails: "align ndiff [] [] = Some (Inl IndexError)"
  by (rule align_one_side_empty_aux) simp

text \<open>
  C10. For every input with at least one line on each side, the loop of
  \<^verbatim>\<open>walk_path\<close> started at the chosen exit node returns: it visits a non-empty list of
  nodes, the first of them the exit node, which lands on the consumption state
  \<open>(m, n)\<close>; each visited node's predecessor pointer is the next visited node and the
  pointer of the last one is the origin \<open>(0, 0)\<close>; the consumption states the visited
  nodes land on are pairwise distinct, and none of them is the origin.
\<close>

theorem walk_reaches_origin:
  assumes "lines_b \<noteq> []" and "lines_a \<noteq> []"
  shows "\<exists>swept_matrix exit_node visited.
     swept ndiff lines_b lines_a = Inr swept_matrix \<and>
     select_exit swept_matrix = Inr exit_node \<and>
     walk_loop swept_matrix exit_node [] = Some (Inr visited) \<and>
     visited \<noteq> [] \<and> hd visited = node_id exit_node \<and>
     parent_chain swept_matrix visited \<and>
     consumed (hd visited) = (length lines_b, length lines_a) \<and>
     distinct (map consumed visited) \<and> (0, 0) \<notin> set (map consumed visited)"
proof -
  from align_run [OF assms, of ndiff] obtain M ex ey ps where
    M: "swept ndiff lines_b lines_a = Inr M"
    and e: "select_exit M = Inr (cell M ex ey)" "node_id (cell M ex ey) = Point ex ey"
    and w: "walk_loop M (cell M ex ey) [] = Some (Inr (Point ex ey # ps))"
    and pc: "parent_chain M (Point ex ey # ps)"
    and ld: "leads (0, 0) (rev (Point ex ey # ps)) (length lines_b, length lines_a)"
    by blast
  from ld have "consumed (Point ex ey) = (length lines_b, length lines_a)"
    by (auto simp: leads_append consumed_def)
  moreover have "distinct (map consumed (Point ex ey # ps))"
    using leads_distinct [OF ld] by (simp only: rev_map [symmetric] distinct_rev)
  moreover have "(0, 0) \<notin> set (map consumed (Point ex ey # ps))"
    using leads_origin_free [OF ld] by simp
  ultimately show ?thesis using M e w pc
    by (intro exI [of _ M] exI [of _ "cell M ex ey"] exI [of _ "Point ex ey # ps"]) simp
qed

text \<open>
  A witness of C10 at \<^verbatim>\<open>align(["x", "y"], ["z"])\<close>.
\<close>

theorem walk_reaches_origin_witness:
  "\<forall>ndiff. \<exists>swept_matrix exit_node visited.
     swept ndiff [''x'', ''y''] [''z''] = Inr swept_matrix \<and>
     select_exit swept_matrix = Inr exit_node \<and>
     walk_loop swept_matrix exit_node [] = Some (Inr visited) \<and>
     parent_chain swept_matrix visited \<and>
     consumed (hd visited) = (2, 1) \<and>
     distinct (map consumed visited) \<and> (0, 0) \<notin> set (map consumed visited)"
proof
  fix ndiff
  have "[''x'', ''y''] \<noteq> []" "[''z''] \<noteq> []" by simp_all
  from walk_reaches_origin [OF this, of ndiff] show
    "\<exists>swept_matrix exit_node visited.
     swept ndiff [''x'', ''y''] [''z''] = Inr swept_matrix \<and>
     select_exit swept_matrix = Inr exit_node \<and>
     walk_loop swept_matrix exit_node [] = Some (Inr visited) \<and>
     parent_chain swept_matrix visited \<and>
     consumed (hd visited) = (2, 1) \<and>
     distinct (map consumed visited) \<and> (0, 0) \<notin> set (map consumed visited)"
    by auto
qed

end
